theory Spec2Isabelle
  imports Main "HOL-Library.Word"
begin

section \<open>JavaScript strings\<close>

text \<open>
  A JavaScript string is a sequence of UTF-16 code units, and \<open>length\<close> counts code
  units. String literals of the source are ASCII; \<open>js\<close> embeds them.
\<close>

type_synonym code_unit = "16 word"
type_synonym jsstring = "code_unit list"

definition js :: "string \<Rightarrow> jsstring" where
  "js s = map of_char s"

text \<open>
  The code units that \<open>String.prototype.trim\<close> strips and that the class \<open>\s\<close> of a
  regular expression matches (ECMAScript WhiteSpace and LineTerminator): TAB, LF, VT, FF,
  CR, SP, NBSP, U+1680, U+2000 to U+200A, U+2028, U+2029, U+202F, U+205F, U+3000, U+FEFF.
\<close>

definition is_space :: "code_unit \<Rightarrow> bool" where
  "is_space c \<longleftrightarrow>
     (0x9 \<le> c \<and> c \<le> 0xD) \<or> c = 0x20 \<or> c = 0xA0 \<or> c = 0x1680 \<or>
     (0x2000 \<le> c \<and> c \<le> 0x200A) \<or> c = 0x2028 \<or> c = 0x2029 \<or> c = 0x202F \<or>
     c = 0x205F \<or> c = 0x3000 \<or> c = 0xFEFF"

definition trim :: "jsstring \<Rightarrow> jsstring" where
  "trim s = rev (dropWhile is_space (rev (dropWhile is_space s)))"

section \<open>Regular expressions\<close>

text \<open>
  The fragment of regular expressions that the source uses: a literal code unit, a
  negated character class whose members are \<open>\s\<close> or literal code units, concatenation
  and \<open>+\<close>. Matching is by derivatives; \<open>Eps\<close>, \<open>Nul\<close> and \<open>Star\<close> are the
  residuals that derivatives produce.
\<close>

datatype class_item = Space | Lit code_unit

fun in_item :: "code_unit \<Rightarrow> class_item \<Rightarrow> bool" where
  "in_item c Space = is_space c"
| "in_item c (Lit d) = (c = d)"

datatype regex =
    Nul
  | Eps
  | Chr code_unit
  | NotIn "class_item list"
  | Seq regex regex
  | Alt regex regex
  | Star regex
  | Plus regex

fun nullable :: "regex \<Rightarrow> bool" where
  "nullable Nul = False"
| "nullable Eps = True"
| "nullable (Chr d) = False"
| "nullable (NotIn is) = False"
| "nullable (Seq r s) = (nullable r \<and> nullable s)"
| "nullable (Alt r s) = (nullable r \<or> nullable s)"
| "nullable (Star r) = True"
| "nullable (Plus r) = nullable r"

fun deriv :: "code_unit \<Rightarrow> regex \<Rightarrow> regex" where
  "deriv c Nul = Nul"
| "deriv c Eps = Nul"
| "deriv c (Chr d) = (if c = d then Eps else Nul)"
| "deriv c (NotIn is) = (if list_ex (in_item c) is then Nul else Eps)"
| "deriv c (Seq r s) =
     (if nullable r then Alt (Seq (deriv c r) s) (deriv c s) else Seq (deriv c r) s)"
| "deriv c (Alt r s) = Alt (deriv c r) (deriv c s)"
| "deriv c (Star r) = Seq (deriv c r) (Star r)"
| "deriv c (Plus r) = Seq (deriv c r) (Star r)"

fun matches :: "regex \<Rightarrow> jsstring \<Rightarrow> bool" where
  "matches r [] = nullable r"
| "matches r (c # cs) = matches (deriv c r) cs"

text \<open>
  \<open>const emailRegex = /^[^\s@]+@[^\s@]+\.[^\s@]+$/\<close>. The expression has no flags, so
  \<open>^\<close> and \<open>$\<close> stand for the two ends of the input and \<open>test\<close> holds exactly when the
  whole input matches the body; \<open>emailRegex\<close> is that body.
\<close>

definition at_sign :: code_unit where "at_sign = 0x40"
definition full_stop :: code_unit where "full_stop = 0x2E"

definition emailRegex :: regex where
  "emailRegex =
     Seq (Plus (NotIn [Space, Lit at_sign]))
      (Seq (Chr at_sign)
        (Seq (Plus (NotIn [Space, Lit at_sign]))
          (Seq (Chr full_stop)
            (Plus (NotIn [Space, Lit at_sign])))))"

definition test :: "regex \<Rightarrow> jsstring \<Rightarrow> bool" where
  "test r s = matches r s"

section \<open>Field validation\<close>

definition name_error :: jsstring where
  "name_error = js ''Please enter your name (min 2 characters).''"

definition email_error :: jsstring where
  "email_error = js ''Please enter a valid email address.''"

definition message_error :: jsstring where
  "message_error = js ''Message must be at least 10 characters.''"

text \<open>
  \<open>validateField(name, value)\<close>: \<open>!value\<close> holds of a string exactly when it is empty;
  the empty result string means that the field is valid.
\<close>

definition validateField :: "jsstring \<Rightarrow> jsstring \<Rightarrow> jsstring" where
  "validateField name value =
     (if name = js ''name'' then
        (if value = [] \<or> length (trim value) < 2 then name_error else [])
      else if name = js ''email'' then
        (if value = [] \<or> \<not> test emailRegex (trim value) then email_error else [])
      else if name = js ''message'' then
        (if value = [] \<or> length (trim value) < 10 then message_error else [])
      else [])"

text \<open>
  An object literal with string keys, as an association list in property order:
  assigning to an existing key keeps its place, a new key goes last, and \<open>Object.keys\<close>
  lists the keys in that order. (Keys that are canonical array indices would be listed
  first; FieldErrors only ever receives the keys \<open>name\<close>, \<open>email\<close> and \<open>message\<close>.)
\<close>

type_synonym 'v obj = "(jsstring \<times> 'v) list"

fun obj_set :: "jsstring \<Rightarrow> 'v \<Rightarrow> 'v obj \<Rightarrow> 'v obj" where
  "obj_set k v [] = [(k, v)]"
| "obj_set k v (p # ps) = (if fst p = k then (k, v) # ps else p # obj_set k v ps)"

fun obj_delete :: "jsstring \<Rightarrow> 'v obj \<Rightarrow> 'v obj" where
  "obj_delete k [] = []"
| "obj_delete k (p # ps) = (if fst p = k then obj_delete k ps else p # obj_delete k ps)"

definition obj_get :: "'v obj \<Rightarrow> jsstring \<Rightarrow> 'v option" where
  "obj_get ob k = map_of ob k"

definition obj_keys :: "'v obj \<Rightarrow> jsstring list" where
  "obj_keys ob = map fst ob"

text \<open>
  FormValues is only ever read by key, so it is a map. \<open>falsy_or\<close> is the test
  \<open>!x || p(x)\<close> on a property that is a string or missing (\<open>undefined\<close>).
\<close>

type_synonym formValues = "jsstring \<rightharpoonup> jsstring"

definition falsy_or :: "jsstring option \<Rightarrow> (jsstring \<Rightarrow> bool) \<Rightarrow> bool" where
  "falsy_or x p = (case x of None \<Rightarrow> True | Some v \<Rightarrow> v = [] \<or> p v)"

definition validateAll :: "formValues \<Rightarrow> jsstring obj" where
  "validateAll values =
     (let e = [];
          e = (if falsy_or (values (js ''name'')) (\<lambda>v. length (trim v) < 2)
               then obj_set (js ''name'') name_error e else e);
          e = (if falsy_or (values (js ''email'')) (\<lambda>v. \<not> test emailRegex (trim v))
               then obj_set (js ''email'') email_error e else e);
          e = (if falsy_or (values (js ''message'')) (\<lambda>v. length (trim v) < 10)
               then obj_set (js ''message'') message_error e else e)
      in e)"

section \<open>The component state\<close>

text \<open>
  The four \<open>useState\<close> cells of \<open>App\<close>, together with what the handlers act on outside
  React: the callbacks scheduled with \<open>setTimeout\<close> and not yet run (each with the time
  at which it is due, in scheduling order), the clock in milliseconds, the form control
  that \<open>handleSubmit\<close> last focused, and whether the effect's \<open>keydown\<close> listener is
  registered (from mount until the effect's cleanup runs at unmount).
\<close>

datatype timer = SendTimer | ToastTimer

record state =
  form :: formValues
  errors :: "jsstring obj"
  isSubmitting :: bool
  mailSent :: bool
  timers :: "(nat \<times> timer) list"
  now :: nat
  focused :: "jsstring option"
  mounted :: bool

definition emptyForm :: formValues where
  "emptyForm = [js ''name'' \<mapsto> [], js ''email'' \<mapsto> [], js ''message'' \<mapsto> []]"

definition init :: state where
  "init = \<lparr> form = emptyForm, errors = [], isSubmitting = False, mailSent = False,
            timers = [], now = 0, focused = None, mounted = True \<rparr>"

definition setTimeout :: "timer \<Rightarrow> nat \<Rightarrow> state \<Rightarrow> state" where
  "setTimeout cb delay st = st\<lparr>timers := timers st @ [(now st + delay, cb)]\<rparr>"

section \<open>Event handlers\<close>

text \<open>The updater that \<open>handleChange\<close> passes to \<open>setErrors\<close>.\<close>

definition changeErrors :: "jsstring \<Rightarrow> jsstring \<Rightarrow> jsstring obj \<Rightarrow> jsstring obj" where
  "changeErrors name value prev =
     (let copy = prev; err = validateField name value
      in if err \<noteq> [] then obj_set name err copy else obj_delete name copy)"

definition handleChange :: "jsstring \<Rightarrow> jsstring \<Rightarrow> state \<Rightarrow> state" where
  "handleChange name value st =
     (let st = st\<lparr>form := (form st)(name \<mapsto> value)\<rparr>
      in st\<lparr>errors := changeErrors name value (errors st)\<rparr>)"

text \<open>
  \<open>handleBlur\<close> queues one updater that spreads \<open>{[name]: err}\<close> (or \<open>{}\<close>) over the
  previous object and, when \<open>err\<close> is empty, a second one that deletes the key; React
  applies queued updaters in order.
\<close>

definition handleBlur :: "jsstring \<Rightarrow> jsstring \<Rightarrow> state \<Rightarrow> state" where
  "handleBlur name value st =
     (let err = validateField name value;
          st = st\<lparr>errors := (if err \<noteq> [] then obj_set name err (errors st) else errors st)\<rparr>
      in if err = [] then st\<lparr>errors := obj_delete name (errors st)\<rparr> else st)"

text \<open>
  \<open>handleSubmit\<close>: the form renders a control for each of the names \<open>name\<close>, \<open>email\<close>
  and \<open>message\<close>, so \<open>querySelector\<close> finds the element and it receives the focus.
\<close>

definition handleSubmit :: "state \<Rightarrow> state" where
  "handleSubmit st =
     (let found = validateAll (form st);
          st = st\<lparr>errors := found\<rparr>
      in case obj_keys found of
           firstField # _ \<Rightarrow> st\<lparr>focused := Some firstField\<rparr>
         | [] \<Rightarrow> setTimeout SendTimer 700 (st\<lparr>isSubmitting := True\<rparr>))"

text \<open>
  The form is submitted through \<open><button type="submit" disabled={isSubmitting}>\<close>: while
  the button is disabled the submit event is not raised.
\<close>

definition submitButton :: "state \<Rightarrow> state" where
  "submitButton st = (if isSubmitting st then st else handleSubmit st)"

text \<open>The two timer callbacks of \<open>handleSubmit\<close>.\<close>

fun fire :: "timer \<Rightarrow> state \<Rightarrow> state" where
  "fire SendTimer st =
     setTimeout ToastTimer 3000 (st\<lparr>isSubmitting := False, mailSent := True, form := emptyForm\<rparr>)"
| "fire ToastTimer st = st\<lparr>mailSent := False\<rparr>"

text \<open>The effect: \<open>onKey\<close> is the listener, \<open>cleanup\<close> the function the effect returns.\<close>

definition onKey :: "jsstring \<Rightarrow> state \<Rightarrow> state" where
  "onKey key st = (if key = js ''Escape'' then st\<lparr>mailSent := False\<rparr> else st)"

definition keydown :: "jsstring \<Rightarrow> state \<Rightarrow> state" where
  "keydown key st = (if mounted st then onKey key st else st)"

definition cleanup :: "state \<Rightarrow> state" where
  "cleanup st = st\<lparr>mounted := False\<rparr>"

section \<open>Time\<close>

text \<open>
  The timer that runs next: the one with the least due time, the earlier scheduled one
  on a tie.
\<close>

fun earliest :: "(nat \<times> timer) list \<Rightarrow> (nat \<times> timer) option" where
  "earliest [] = None"
| "earliest (x # xs) =
     (case earliest xs of
        None \<Rightarrow> Some x
      | Some y \<Rightarrow> if fst x \<le> fst y then Some x else Some y)"

fun weight :: "(nat \<times> timer) list \<Rightarrow> nat" where
  "weight [] = 0"
| "weight ((t, SendTimer) # xs) = 2 + weight xs"
| "weight ((t, ToastTimer) # xs) = 1 + weight xs"

lemma earliest_mem: "earliest xs = Some x \<Longrightarrow> x \<in> set xs"
  by (induction xs arbitrary: x) (auto split: option.splits if_splits)

lemma weight_append: "weight (xs @ ys) = weight xs + weight ys"
  by (induction xs rule: weight.induct) auto

lemma weight_remove1_Send:
  "(t, SendTimer) \<in> set xs \<Longrightarrow> weight (remove1 (t, SendTimer) xs) + 2 = weight xs"
  by (induction xs rule: weight.induct) auto

lemma weight_remove1_Toast:
  "(t, ToastTimer) \<in> set xs \<Longrightarrow> weight (remove1 (t, ToastTimer) xs) + 1 = weight xs"
  by (induction xs rule: weight.induct) auto

text \<open>A scheduled callback runs: it leaves the pending ones and the clock reaches its due time.\<close>

definition fireTimer :: "nat \<times> timer \<Rightarrow> state \<Rightarrow> state" where
  "fireTimer x st =
     fire (snd x) (st\<lparr>timers := remove1 x (timers st), now := max (now st) (fst x)\<rparr>)"

text \<open>
  \<open>run_until T\<close> lets the clock reach \<open>T\<close>: the due callbacks run one after the other,
  each at its due time, and a callback may schedule further ones.
\<close>

function run_until :: "nat \<Rightarrow> state \<Rightarrow> state" where
  "run_until T st =
     (case earliest (timers st) of
        None \<Rightarrow> st\<lparr>now := max (now st) T\<rparr>
      | Some x \<Rightarrow>
          if fst x \<le> T then run_until T (fireTimer x st)
          else st\<lparr>now := max (now st) T\<rparr>)"
  by pat_completeness auto
termination
proof (relation "measure (\<lambda>(T, st). weight (timers st))")
  show "wf (measure (\<lambda>(T, st). weight (timers st)))"
    by simp
next
  fix T :: nat and st :: state and x
  assume e: "earliest (timers st) = Some x"
  then have m: "x \<in> set (timers st)"
    by (rule earliest_mem)
  obtain t cb where x: "x = (t, cb)"
    by (cases x)
  have "weight (timers (fireTimer x st)) < weight (timers st)"
  proof (cases cb)
    case SendTimer
    with m x weight_remove1_Send [of t "timers st"] show ?thesis
      by (simp add: fireTimer_def setTimeout_def weight_append)
  next
    case ToastTimer
    with m x weight_remove1_Toast [of t "timers st"] show ?thesis
      by (simp add: fireTimer_def)
  qed
  then show "((T, fireTimer x st), (T, st)) \<in> measure (\<lambda>(T, st). weight (timers st))"
    by simp
qed

definition elapse :: "nat \<Rightarrow> state \<Rightarrow> state" where
  "elapse d st = run_until (now st + d) st"

text \<open>
  SubmissionState, read off the two flags: the button shows the send in progress while
  \<open>isSubmitting\<close> holds, the toast shows while \<open>mailSent\<close> holds.
\<close>

datatype submissionState = Idle | Sending | Succeeded

definition submission :: "state \<Rightarrow> submissionState" where
  "submission st = (if isSubmitting st then Sending else if mailSent st then Succeeded else Idle)"

text \<open>
  The states the component can be in: user events reach the handlers while it is
  mounted, time passes, and the component may be unmounted.
\<close>

inductive reachable :: "state \<Rightarrow> bool" where
  r_init: "reachable init"
| r_change: "reachable st \<Longrightarrow> mounted st \<Longrightarrow> reachable (handleChange name value st)"
| r_blur: "reachable st \<Longrightarrow> mounted st \<Longrightarrow> reachable (handleBlur name value st)"
| r_submit: "reachable st \<Longrightarrow> mounted st \<Longrightarrow> reachable (submitButton st)"
| r_key: "reachable st \<Longrightarrow> reachable (keydown key st)"
| r_time: "reachable st \<Longrightarrow> reachable (run_until T st)"
| r_unmount: "reachable st \<Longrightarrow> reachable (cleanup st)"

text \<open>One step of the component: a handler, the listener, a timer callback or the cleanup.\<close>

datatype action =
    Change jsstring jsstring
  | Blur jsstring jsstring
  | Submit
  | Key jsstring
  | Timer nat timer
  | Unmount

fun step :: "action \<Rightarrow> state \<Rightarrow> state" where
  "step (Change name value) st = handleChange name value st"
| "step (Blur name value) st = handleBlur name value st"
| "step Submit st = submitButton st"
| "step (Key key) st = keydown key st"
| "step (Timer t cb) st = fireTimer (t, cb) st"
| "step Unmount st = cleanup st"

text \<open>The number of sends in flight: the pending callbacks that complete a send.\<close>

definition sends :: "state \<Rightarrow> nat" where
  "sends st = length (filter (\<lambda>x. snd x = SendTimer) (timers st))"

section \<open>The specification's vocabulary\<close>

text \<open>
  The fixed order of the fields, and the error of a field of FormValues by the
  single-field rule (a missing value counts as empty).
\<close>

definition fieldOrder :: "jsstring list" where
  "fieldOrder = [js ''name'', js ''email'', js ''message'']"

definition fieldError :: "formValues \<Rightarrow> jsstring \<Rightarrow> jsstring" where
  "fieldError values f = validateField f (case values f of None \<Rightarrow> [] | Some v \<Rightarrow> v)"

text \<open>A code unit of the class \<open>[^\s@]\<close>.\<close>

definition not_space_at :: "code_unit \<Rightarrow> bool" where
  "not_space_at c \<longleftrightarrow> \<not> is_space c \<and> c \<noteq> at_sign"

text \<open>A user who fills in the three fields with the valid example of the specification.\<close>

definition fillIn :: "state \<Rightarrow> state" where
  "fillIn st =
     handleChange (js ''message'') (js ''Hello there, how are you?'')
       (handleChange (js ''email'') (js ''sam@example.com'')
         (handleChange (js ''name'') (js ''Sam'') st))"


section \<open>Strings and the email pattern\<close>

lemma name_ne_email: "js ''name'' \<noteq> js ''email''"
  by (simp add: js_def)

lemma name_ne_message: "js ''name'' \<noteq> js ''message''"
  by (simp add: js_def)

lemma email_ne_message: "js ''email'' \<noteq> js ''message''"
  by (simp add: js_def)

lemmas field_names_distinct =
  name_ne_email name_ne_message email_ne_message
  name_ne_email [symmetric] name_ne_message [symmetric] email_ne_message [symmetric]

lemma name_error_nonempty: "name_error \<noteq> []"
  by (simp add: name_error_def js_def)

lemma email_error_nonempty: "email_error \<noteq> []"
  by (simp add: email_error_def js_def)

lemma message_error_nonempty: "message_error \<noteq> []"
  by (simp add: message_error_def js_def)

lemmas errors_nonempty = name_error_nonempty email_error_nonempty message_error_nonempty

lemmas eval_defs =
  js_def trim_def is_space_def test_def emailRegex_def at_sign_def full_stop_def

text \<open>
  \<open>trim\<close> removes a prefix and a suffix of white space, and what is left neither starts
  nor ends with white space.
\<close>

lemma trim_decompose:
  "\<exists>pre post. s = pre @ trim s @ post \<and> list_all is_space pre \<and> list_all is_space post"
proof -
  let ?t = "dropWhile is_space s"
  have 1: "s = takeWhile is_space s @ ?t"
    by simp
  have "?t = rev (dropWhile is_space (rev ?t)) @ rev (takeWhile is_space (rev ?t))"
    by (metis rev_append rev_rev_ident takeWhile_dropWhile_id)
  then have 2: "?t = trim s @ rev (takeWhile is_space (rev ?t))"
    by (simp add: trim_def)
  have a: "list_all is_space (takeWhile is_space s)"
    by (simp add: list_all_iff) (meson set_takeWhileD)
  have b: "list_all is_space (rev (takeWhile is_space (rev ?t)))"
    by (simp add: list_all_iff) (meson set_takeWhileD)
  from 1 2 have "s = takeWhile is_space s @ trim s @ rev (takeWhile is_space (rev ?t))"
    by metis
  with a b show ?thesis
    by blast
qed

lemma trim_ends:
  "trim s \<noteq> [] \<Longrightarrow> \<not> is_space (hd (trim s)) \<and> \<not> is_space (last (trim s))"
proof -
  assume ne: "trim s \<noteq> []"
  let ?t = "dropWhile is_space s"
  let ?u = "dropWhile is_space (rev ?t)"
  from ne have u: "?u \<noteq> []"
    by (simp add: trim_def)
  then have l: "\<not> is_space (hd ?u)"
    by (rule hd_dropWhile)
  have tne: "?t \<noteq> []"
    using u by (metis dropWhile.simps(1) rev.simps(1))
  then have h: "\<not> is_space (hd ?t)"
    by (rule hd_dropWhile)
  have last: "last (trim s) = hd ?u"
    using u by (simp add: trim_def last_rev)
  have "last ?u = last (rev ?t)"
    using u by (metis last_appendR takeWhile_dropWhile_id)
  then have "hd (rev ?u) = hd ?t"
    using u tne by (simp add: hd_rev last_rev)
  then have "hd (trim s) = hd ?t"
    by (simp add: trim_def)
  with h l last show ?thesis
    by simp
qed

text \<open>The derivative matcher decides the usual meaning of the constructors.\<close>

lemma matches_Nul: "matches Nul w = False"
  by (induction w) auto

lemma matches_Eps: "matches Eps w \<longleftrightarrow> w = []"
  by (cases w) (auto simp: matches_Nul)

lemma matches_Chr: "matches (Chr d) w \<longleftrightarrow> w = [d]"
  by (cases w) (auto simp: matches_Nul matches_Eps)

lemma matches_Alt: "matches (Alt r s) w \<longleftrightarrow> matches r w \<or> matches s w"
  by (induction w arbitrary: r s) auto

lemma split_Cons_append:
  "(\<exists>u v. c # w = u @ v \<and> P u \<and> Q v) \<longleftrightarrow>
     (P [] \<and> Q (c # w)) \<or> (\<exists>u v. w = u @ v \<and> P (c # u) \<and> Q v)"
  (is "?L \<longleftrightarrow> ?R")
proof
  assume ?L
  then obtain u v where uv: "c # w = u @ v" "P u" "Q v" by blast
  show ?R
  proof (cases u)
    case Nil
    with uv show ?thesis by simp
  next
    case (Cons a u')
    with uv have "w = u' @ v" "P (c # u')" by simp_all
    with uv(3) show ?thesis by blast
  qed
next
  assume ?R
  then show ?L
  proof
    assume "P [] \<and> Q (c # w)"
    then have "c # w = [] @ (c # w) \<and> P [] \<and> Q (c # w)" by simp
    then show ?L by blast
  next
    assume "\<exists>u v. w = u @ v \<and> P (c # u) \<and> Q v"
    then obtain u v where "w = u @ v" "P (c # u)" "Q v" by blast
    then have "c # w = (c # u) @ v \<and> P (c # u) \<and> Q v" by simp
    then show ?L by blast
  qed
qed

lemma matches_Seq:
  "matches (Seq r s) w \<longleftrightarrow> (\<exists>u v. w = u @ v \<and> matches r u \<and> matches s v)"
proof (induction w arbitrary: r s)
  case Nil
  then show ?case by simp
next
  case (Cons c w)
  show ?case
    unfolding split_Cons_append [of c w "matches r" "matches s"]
    by (auto simp: Cons matches_Alt)
qed

lemma matches_Star_NotIn:
  "matches (Star (NotIn [Space, Lit at_sign])) w \<longleftrightarrow> list_all not_space_at w"
proof (induction w)
  case Nil
  then show ?case by simp
next
  case (Cons c w)
  have "matches (Star (NotIn [Space, Lit at_sign])) (c # w)
     \<longleftrightarrow> matches (Seq (deriv c (NotIn [Space, Lit at_sign])) (Star (NotIn [Space, Lit at_sign]))) w"
    by simp
  also have "\<dots> \<longleftrightarrow> not_space_at c \<and> matches (Star (NotIn [Space, Lit at_sign])) w"
    by (auto simp: matches_Seq matches_Nul matches_Eps not_space_at_def)
  finally show ?case using Cons by simp
qed

lemma matches_Plus_NotIn:
  "matches (Plus (NotIn [Space, Lit at_sign])) w \<longleftrightarrow> w \<noteq> [] \<and> list_all not_space_at w"
proof (cases w)
  case Nil
  then show ?thesis by simp
next
  case (Cons c cs)
  have "matches (Plus (NotIn [Space, Lit at_sign])) (c # cs)
     \<longleftrightarrow> matches (Seq (deriv c (NotIn [Space, Lit at_sign])) (Star (NotIn [Space, Lit at_sign]))) cs"
    by simp
  also have "\<dots> \<longleftrightarrow> not_space_at c \<and> list_all not_space_at cs"
    by (auto simp: matches_Seq matches_Nul matches_Eps matches_Star_NotIn not_space_at_def)
  finally show ?thesis using Cons by simp
qed

text \<open>
  What \<open>emailRegex\<close> accepts: a local part, \<open>@\<close>, a domain part, a full stop and a last
  part, the three parts non-empty and free of white space and of \<open>@\<close> (each may contain
  further full stops).
\<close>

lemma test_emailRegex:
  "test emailRegex w \<longleftrightarrow>
     (\<exists>l d e. w = l @ [at_sign] @ d @ [full_stop] @ e \<and> l \<noteq> [] \<and> d \<noteq> [] \<and> e \<noteq> [] \<and>
        list_all not_space_at l \<and> list_all not_space_at d \<and> list_all not_space_at e)"
  unfolding test_def emailRegex_def
  by (simp add: matches_Seq matches_Plus_NotIn matches_Chr) blast

section \<open>Validation of a field\<close>

lemma validateField_name:
  "validateField (js ''name'') s = (if s \<noteq> [] \<and> 2 \<le> length (trim s) then [] else name_error)"
  by (simp add: validateField_def not_less)

lemma validateField_email:
  "validateField (js ''email'') s =
     (if s \<noteq> [] \<and> test emailRegex (trim s) then [] else email_error)"
  by (simp add: validateField_def field_names_distinct)

lemma validateField_message:
  "validateField (js ''message'') s =
     (if s \<noteq> [] \<and> 10 \<le> length (trim s) then [] else message_error)"
  by (simp add: validateField_def field_names_distinct not_less)

text \<open>The examples of the specification.\<close>

lemma email_example_valid: "validateField (js ''email'') (js ''a@b.co'') = []"
  unfolding validateField_email by (simp add: eval_defs)

lemma email_example_invalid: "validateField (js ''email'') (js ''not-an-email'') = email_error"
  unfolding validateField_email by (simp add: eval_defs)

lemma message_example_valid: "validateField (js ''message'') (js ''1234567890'') = []"
  unfolding validateField_message by (simp add: eval_defs)

lemma message_example_invalid: "validateField (js ''message'') (js ''short'') = message_error"
  unfolding validateField_message by (simp add: eval_defs)

text \<open>
  C1. For every string \<open>s\<close>, \<open>validateField\<close> returns the empty string for the field
  \<open>name\<close> exactly when \<open>s\<close> is non-empty and its trimmed length is at least 2, for
  \<open>email\<close> exactly when \<open>s\<close> is non-empty and \<open>s\<close> trimmed matches \<open>emailRegex\<close>, for
  \<open>message\<close> exactly when \<open>s\<close> is non-empty and its trimmed length is at least 10; in
  every other case it returns the error message of the field. The pattern accepts the
  trimmed string exactly when it is a local part, \<open>@\<close>, a domain part, a full stop and a
  last part, all three non-empty and without white space or \<open>@\<close>.
\<close>

theorem validateField_rules:
  "(validateField (js ''name'') s = [] \<longleftrightarrow> s \<noteq> [] \<and> 2 \<le> length (trim s)) \<and>
   (validateField (js ''name'') s = [] \<or> validateField (js ''name'') s = name_error) \<and>
   (validateField (js ''email'') s = [] \<longleftrightarrow> s \<noteq> [] \<and> test emailRegex (trim s)) \<and>
   (validateField (js ''email'') s = [] \<or> validateField (js ''email'') s = email_error) \<and>
   (test emailRegex (trim s) \<longleftrightarrow>
      (\<exists>l d e. trim s = l @ [at_sign] @ d @ [full_stop] @ e \<and> l \<noteq> [] \<and> d \<noteq> [] \<and> e \<noteq> [] \<and>
         list_all not_space_at l \<and> list_all not_space_at d \<and> list_all not_space_at e)) \<and>
   (validateField (js ''message'') s = [] \<longleftrightarrow> s \<noteq> [] \<and> 10 \<le> length (trim s)) \<and>
   (validateField (js ''message'') s = [] \<or> validateField (js ''message'') s = message_error)"
  using test_emailRegex [of "trim s"]
  by (simp add: validateField_name validateField_email validateField_message errors_nonempty)

text \<open>A padded address: valid as a name and as an email, too short as a message.\<close>

theorem validateField_rules_witness:
  "validateField (js ''name'') (js '' a@b.co '') = [] \<and>
   validateField (js ''email'') (js '' a@b.co '') = [] \<and>
   validateField (js ''message'') (js '' a@b.co '') = message_error"
proof -
  have t: "trim (js '' a@b.co '') = js ''a@b.co''"
    by (simp add: eval_defs)
  have l: "length (js ''a@b.co'') = 6" and n: "js '' a@b.co '' \<noteq> []"
    by (simp_all add: js_def)
  have m: "test emailRegex (js ''a@b.co'')"
    by (simp add: eval_defs)
  from validateField_rules [of "js '' a@b.co ''"] show ?thesis
    unfolding t l using n m by auto
qed

section \<open>Objects\<close>

lemma obj_get_set: "obj_get (obj_set k v ob) k' = (if k' = k then Some v else obj_get ob k')"
  by (induction ob) (auto simp: obj_get_def)

lemma obj_get_delete: "obj_get (obj_delete k ob) k' = (if k' = k then None else obj_get ob k')"
  by (induction ob) (auto simp: obj_get_def)

lemma obj_set_idem: "obj_set k v (obj_set k v ob) = obj_set k v ob"
  by (induction ob) auto

lemma obj_delete_idem: "obj_delete k (obj_delete k ob) = obj_delete k ob"
  by (induction ob) auto

lemma obj_keys_delete: "set (obj_keys (obj_delete k ob)) = set (obj_keys ob) - {k}"
  by (induction ob) (auto simp: obj_keys_def)

section \<open>Change and blur\<close>

lemma changeErrors_idem: "changeErrors f v (changeErrors f v ob) = changeErrors f v ob"
  by (simp add: changeErrors_def Let_def obj_set_idem obj_delete_idem)

lemma obj_get_changeErrors:
  "obj_get (changeErrors f v ob) g =
     (if g = f then (if validateField f v = [] then None else Some (validateField f v))
      else obj_get ob g)"
  by (simp add: changeErrors_def Let_def obj_get_set obj_get_delete)

lemma errors_handleChange: "errors (handleChange f v st) = changeErrors f v (errors st)"
  by (simp add: handleChange_def Let_def)

lemma form_handleChange: "form (handleChange f v st) = (form st)(f \<mapsto> v)"
  by (simp add: handleChange_def Let_def)

lemma errors_handleBlur: "errors (handleBlur f v st) = changeErrors f v (errors st)"
  by (simp add: handleBlur_def changeErrors_def Let_def)

text \<open>
  C6. For every field name, value and state, \<open>handleChange\<close> applied twice with the same
  field and value gives the state that one application gives: the same FieldErrors, the
  same FormValues, nothing else touched.
\<close>

theorem handleChange_idempotent:
  "handleChange f v (handleChange f v st) = handleChange f v st"
  by (simp add: handleChange_def Let_def changeErrors_idem)

theorem handleChange_idempotent_witness:
  "handleChange (js ''name'') (js ''S'') (handleChange (js ''name'') (js ''S'') init)
     = handleChange (js ''name'') (js ''S'') init \<and>
   errors (handleChange (js ''name'') (js ''S'') (handleChange (js ''name'') (js ''S'') init))
     = [(js ''name'', name_error)]"
proof -
  have "errors (handleChange (js ''name'') (js ''S'') init) = [(js ''name'', name_error)]"
    unfolding errors_handleChange changeErrors_def validateField_name
    by (simp add: init_def errors_nonempty eval_defs)
  then show ?thesis
    using handleChange_idempotent [of "js ''name''" "js ''S''" init] by simp
qed

text \<open>
  C7. For every field name \<open>f\<close> (so for \<open>name\<close>, \<open>email\<close> and \<open>message\<close>), value \<open>v\<close> and
  state, \<open>handleChange\<close> sets FormValues at \<open>f\<close> to \<open>v\<close>; FieldErrors then has no entry
  for \<open>f\<close> when \<open>validateField f v\<close> is empty and the entry \<open>validateField f v\<close>
  otherwise; the entries of FieldErrors and of FormValues for every other field are
  unchanged, and so are the submission flags and the timers.
\<close>

theorem handleChange_frame:
  "form (handleChange f v st) f = Some v \<and>
   obj_get (errors (handleChange f v st)) f =
     (if validateField f v = [] then None else Some (validateField f v)) \<and>
   (\<forall>g. g \<noteq> f \<longrightarrow>
      obj_get (errors (handleChange f v st)) g = obj_get (errors st) g \<and>
      form (handleChange f v st) g = form st g) \<and>
   isSubmitting (handleChange f v st) = isSubmitting st \<and>
   mailSent (handleChange f v st) = mailSent st \<and>
   timers (handleChange f v st) = timers st"
  by (simp add: handleChange_def Let_def obj_get_changeErrors)

theorem handleChange_frame_witness:
  "form (handleChange (js ''email'') (js ''a@b.co'') (handleChange (js ''name'') [] init))
     (js ''email'') = Some (js ''a@b.co'') \<and>
   obj_get (errors (handleChange (js ''email'') (js ''a@b.co'') (handleChange (js ''name'') [] init)))
     (js ''email'') = None \<and>
   obj_get (errors (handleChange (js ''email'') (js ''a@b.co'') (handleChange (js ''name'') [] init)))
     (js ''name'') = Some name_error \<and>
   form (handleChange (js ''email'') (js ''a@b.co'') (handleChange (js ''name'') [] init))
     (js ''name'') = Some []"
proof -
  let ?st = "handleChange (js ''name'') [] init"
  have e: "obj_get (errors ?st) (js ''name'') = Some name_error"
    by (simp add: errors_handleChange obj_get_changeErrors validateField_name errors_nonempty)
  have f: "form ?st (js ''name'') = Some []"
    by (simp add: form_handleChange)
  show ?thesis
    using handleChange_frame [of "js ''email''" "js ''a@b.co''" ?st] e f
      email_example_valid name_ne_email
    by simp
qed

text \<open>
  C5. For every field name, value and state, the FieldErrors that \<open>handleBlur\<close> leaves
  after its two updates is the FieldErrors after the single recomputation that
  \<open>handleChange\<close> performs (\<open>changeErrors\<close>): the entry \<open>validateField f v\<close> for the field
  when that is non-empty, no entry for the field otherwise, every other entry unchanged.
\<close>

theorem handleBlur_refines:
  "errors (handleBlur f v st) = changeErrors f v (errors st) \<and>
   errors (handleBlur f v st) = errors (handleChange f v st) \<and>
   obj_get (errors (handleBlur f v st)) f =
     (if validateField f v = [] then None else Some (validateField f v)) \<and>
   (\<forall>g. g \<noteq> f \<longrightarrow> obj_get (errors (handleBlur f v st)) g = obj_get (errors st) g)"
  by (simp add: errors_handleBlur errors_handleChange obj_get_changeErrors)

theorem handleBlur_refines_witness:
  "errors (handleBlur (js ''email'') (js ''a@b.co'') (handleChange (js ''email'') (js ''x'') init))
     = errors (handleChange (js ''email'') (js ''a@b.co'') (handleChange (js ''email'') (js ''x'') init)) \<and>
   obj_get (errors (handleBlur (js ''email'') (js ''a@b.co'') (handleChange (js ''email'') (js ''x'') init)))
     (js ''email'') = None \<and>
   obj_get (errors (handleBlur (js ''email'') (js ''a@b.co'') (handleChange (js ''email'') (js ''x'') init)))
     (js ''name'') = None"
proof -
  let ?st = "handleChange (js ''email'') (js ''x'') init"
  have i: "obj_get (errors init) (js ''name'') = None"
    by (simp add: init_def obj_get_def)
  have e: "obj_get (errors ?st) (js ''name'') = None"
    by (simp add: errors_handleChange obj_get_changeErrors name_ne_email i)
  show ?thesis
    using handleBlur_refines [of "js ''email''" "js ''a@b.co''" ?st] e
      email_example_valid name_ne_email
    by auto
qed

text \<open>
  C10. For every field name other than \<open>name\<close>, \<open>email\<close> and \<open>message\<close> and every value,
  \<open>validateField\<close> returns the empty string, and neither \<open>handleChange\<close> nor
  \<open>handleBlur\<close> adds an entry to FieldErrors: afterwards the field has no entry and the
  keys are among the previous ones.
\<close>

theorem unknown_field_valid:
  assumes "f \<noteq> js ''name''" and "f \<noteq> js ''email''" and "f \<noteq> js ''message''"
  shows "validateField f v = [] \<and>
         obj_get (errors (handleChange f v st)) f = None \<and>
         obj_get (errors (handleBlur f v st)) f = None \<and>
         set (obj_keys (errors (handleChange f v st))) \<subseteq> set (obj_keys (errors st)) \<and>
         set (obj_keys (errors (handleBlur f v st))) \<subseteq> set (obj_keys (errors st))"
proof -
  from assms have v: "validateField f v = []"
    by (simp add: validateField_def)
  then show ?thesis
    by (auto simp: errors_handleChange errors_handleBlur changeErrors_def Let_def
        obj_get_delete obj_keys_delete)
qed

theorem unknown_field_valid_witness:
  "validateField (js ''phone'') (js ''x'') = [] \<and>
   obj_get (errors (handleChange (js ''phone'') (js ''x'') init)) (js ''phone'') = None \<and>
   obj_get (errors (handleBlur (js ''phone'') (js ''x'') init)) (js ''phone'') = None \<and>
   set (obj_keys (errors (handleChange (js ''phone'') (js ''x'') init))) \<subseteq> set (obj_keys (errors init)) \<and>
   set (obj_keys (errors (handleBlur (js ''phone'') (js ''x'') init))) \<subseteq> set (obj_keys (errors init))"
proof -
  have "js ''phone'' \<noteq> js ''name''" "js ''phone'' \<noteq> js ''email''" "js ''phone'' \<noteq> js ''message''"
    by (simp_all add: js_def)
  then show ?thesis
    by (rule unknown_field_valid)
qed


section \<open>Validation of the form\<close>

text \<open>
  \<open>validateAll\<close> applies the rule of each field in the fixed order and keeps the
  entries of the invalid fields.
\<close>

lemma validateAll_eq:
  "validateAll values =
     filter (\<lambda>p. snd p \<noteq> []) (map (\<lambda>f. (f, fieldError values f)) fieldOrder)"
  unfolding validateAll_def fieldOrder_def fieldError_def falsy_or_def Let_def
    list.map validateField_name validateField_email validateField_message
  by (simp add: errors_nonempty field_names_distinct not_less split: option.splits)

lemma obj_keys_validateAll:
  "obj_keys (validateAll values) = filter (\<lambda>f. fieldError values f \<noteq> []) fieldOrder"
  by (simp add: validateAll_eq obj_keys_def filter_map comp_def)


lemma validateAll_example_valid:
  "validateAll [js ''name'' \<mapsto> js ''Sam'', js ''email'' \<mapsto> js ''sam@example.com'',
                js ''message'' \<mapsto> js ''Hello there, how are you?''] = []"
proof -
  have "validateField (js ''name'') (js ''Sam'') = []"
    unfolding validateField_name by (simp add: eval_defs)
  moreover have "validateField (js ''email'') (js ''sam@example.com'') = []"
    unfolding validateField_email by (simp add: eval_defs)
  moreover have "validateField (js ''message'') (js ''Hello there, how are you?'') = []"
    unfolding validateField_message by (simp add: eval_defs)
  ultimately show ?thesis
    unfolding validateAll_eq fieldOrder_def fieldError_def list.map
    by (simp add: field_names_distinct)
qed

section \<open>Submission\<close>

lemma handleSubmit_blocked:
  "validateAll (form st) \<noteq> [] \<Longrightarrow>
   handleSubmit st =
     st\<lparr>errors := validateAll (form st), focused := Some (hd (obj_keys (validateAll (form st))))\<rparr>"
  by (cases "validateAll (form st)") (simp_all add: handleSubmit_def Let_def obj_keys_def)

lemma handleSubmit_valid:
  "validateAll (form st) = [] \<Longrightarrow>
   handleSubmit st =
     st\<lparr>errors := [], isSubmitting := True, timers := timers st @ [(now st + 700, SendTimer)]\<rparr>"
  by (simp add: handleSubmit_def Let_def obj_keys_def setTimeout_def)

lemma find_filter_hd: "filter P xs \<noteq> [] \<Longrightarrow> find P xs = Some (hd (filter P xs))"
  by (induction xs) auto

text \<open>
  C2. For every state whose values fail validation (\<open>validateAll\<close> returns an entry),
  \<open>handleSubmit\<close> replaces FieldErrors by the result of \<open>validateAll\<close> on the current
  values, leaves FormValues and SubmissionState as they are (so \<open>Idle\<close> stays \<open>Idle\<close>),
  schedules nothing, and focuses the first field, in the order \<open>name\<close>, \<open>email\<close>,
  \<open>message\<close>, whose rule fails. In \<open>Idle\<close> the submit button runs \<open>handleSubmit\<close>.
\<close>

theorem blocked_submit:
  assumes "validateAll (form st) \<noteq> []"
  shows "errors (handleSubmit st) = validateAll (form st) \<and>
         form (handleSubmit st) = form st \<and>
         submission (handleSubmit st) = submission st \<and>
         isSubmitting (handleSubmit st) = isSubmitting st \<and>
         mailSent (handleSubmit st) = mailSent st \<and>
         timers (handleSubmit st) = timers st \<and>
         focused (handleSubmit st) = find (\<lambda>f. fieldError (form st) f \<noteq> []) fieldOrder \<and>
         focused (handleSubmit st) \<noteq> None \<and>
         (submission st = Idle \<longrightarrow> submitButton st = handleSubmit st)"
proof -
  from assms have k: "filter (\<lambda>f. fieldError (form st) f \<noteq> []) fieldOrder \<noteq> []"
    by (simp add: obj_keys_validateAll [symmetric] obj_keys_def)
  have b: "submission st = Idle \<longrightarrow> submitButton st = handleSubmit st"
    by (simp add: submission_def submitButton_def)
  have "errors (handleSubmit st) = validateAll (form st) \<and>
        form (handleSubmit st) = form st \<and>
        submission (handleSubmit st) = submission st \<and>
        isSubmitting (handleSubmit st) = isSubmitting st \<and>
        mailSent (handleSubmit st) = mailSent st \<and>
        timers (handleSubmit st) = timers st \<and>
        focused (handleSubmit st) = find (\<lambda>f. fieldError (form st) f \<noteq> []) fieldOrder \<and>
        focused (handleSubmit st) \<noteq> None"
    unfolding handleSubmit_blocked [OF assms]
    by (simp add: submission_def obj_keys_validateAll find_filter_hd [OF k])
  with b show ?thesis
    by blast
qed

text \<open>The example \<open>{name: "", email: "x", message: "hi"}\<close>.\<close>

theorem blocked_submit_witness:
  "errors (handleSubmit (init\<lparr>form := [js ''name'' \<mapsto> [], js ''email'' \<mapsto> js ''x'',
                                        js ''message'' \<mapsto> js ''hi'']\<rparr>))
     = [(js ''name'', name_error), (js ''email'', email_error), (js ''message'', message_error)] \<and>
   submission (handleSubmit (init\<lparr>form := [js ''name'' \<mapsto> [], js ''email'' \<mapsto> js ''x'',
                                        js ''message'' \<mapsto> js ''hi'']\<rparr>)) = Idle \<and>
   timers (handleSubmit (init\<lparr>form := [js ''name'' \<mapsto> [], js ''email'' \<mapsto> js ''x'',
                                        js ''message'' \<mapsto> js ''hi'']\<rparr>)) = [] \<and>
   focused (handleSubmit (init\<lparr>form := [js ''name'' \<mapsto> [], js ''email'' \<mapsto> js ''x'',
                                        js ''message'' \<mapsto> js ''hi'']\<rparr>)) = Some (js ''name'')"
proof -
  let ?st = "init\<lparr>form := [js ''name'' \<mapsto> [], js ''email'' \<mapsto> js ''x'', js ''message'' \<mapsto> js ''hi'']\<rparr>"
  have n: "fieldError (form ?st) (js ''name'') = name_error"
    by (simp add: fieldError_def field_names_distinct validateField_name)
  have e: "fieldError (form ?st) (js ''email'') = email_error"
    unfolding fieldError_def validateField_email
    by (simp add: field_names_distinct) (simp add: eval_defs)
  have m: "fieldError (form ?st) (js ''message'') = message_error"
    unfolding fieldError_def validateField_message
    by (simp add: field_names_distinct) (simp add: eval_defs)
  have v: "validateAll (form ?st) =
      [(js ''name'', name_error), (js ''email'', email_error), (js ''message'', message_error)]"
    unfolding validateAll_eq fieldOrder_def list.map n e m
    by (simp add: errors_nonempty)
  then have ne: "validateAll (form ?st) \<noteq> []"
    by simp
  have i: "submission ?st = Idle" "timers ?st = []"
    by (simp_all add: submission_def init_def)
  show ?thesis
    using blocked_submit [OF ne] v i n
    by (simp add: fieldOrder_def errors_nonempty)
qed

text \<open>
  C8. Whenever SubmissionState is \<open>Succeeded\<close>, the Escape key (the listener \<open>onKey\<close>,
  registered while the component is mounted) gives \<open>Idle\<close> at once, whatever timers are
  pending and whatever the clock shows; it leaves both as they are.
\<close>

theorem escape_dismisses:
  assumes "submission st = Succeeded"
  shows "submission (onKey (js ''Escape'') st) = Idle \<and>
         (mounted st \<longrightarrow> submission (keydown (js ''Escape'') st) = Idle) \<and>
         timers (onKey (js ''Escape'') st) = timers st \<and>
         now (onKey (js ''Escape'') st) = now st"
  using assms by (simp add: submission_def onKey_def keydown_def split: if_splits)

theorem escape_dismisses_witness:
  "submission (init\<lparr>mailSent := True, timers := [(3700, ToastTimer)], now := 1000\<rparr>) = Succeeded \<and>
   submission (onKey (js ''Escape'')
     (init\<lparr>mailSent := True, timers := [(3700, ToastTimer)], now := 1000\<rparr>)) = Idle \<and>
   submission (keydown (js ''Escape'')
     (init\<lparr>mailSent := True, timers := [(3700, ToastTimer)], now := 1000\<rparr>)) = Idle \<and>
   timers (onKey (js ''Escape'')
     (init\<lparr>mailSent := True, timers := [(3700, ToastTimer)], now := 1000\<rparr>)) = [(3700, ToastTimer)]"
proof -
  let ?st = "init\<lparr>mailSent := True, timers := [(3700, ToastTimer)], now := 1000\<rparr>"
  have s: "submission ?st = Succeeded"
    by (simp add: submission_def init_def)
  have m: "mounted ?st" "timers ?st = [(3700, ToastTimer)]"
    by (simp_all add: init_def)
  show ?thesis
    using escape_dismisses [OF s] s m by simp
qed

section \<open>Timers\<close>

declare run_until.simps [simp del]

lemma earliest_None: "earliest xs = None \<longleftrightarrow> xs = []"
  by (cases xs) (auto split: option.splits)

lemma earliest_least: "earliest xs = Some x \<Longrightarrow> y \<in> set xs \<Longrightarrow> fst x \<le> fst y"
  by (induction xs arbitrary: x) (fastforce split: option.splits if_splits simp: earliest_None)+

lemma earliest_snoc:
  "earliest (xs @ [z]) =
     (case earliest xs of None \<Rightarrow> Some z | Some y \<Rightarrow> if fst y \<le> fst z then Some y else Some z)"
  by (induction xs) (auto split: option.splits)

lemma filter_remove1_out: "\<not> P x \<Longrightarrow> filter P (remove1 x xs) = filter P xs"
  by (induction xs) auto

lemma run_until_idle:
  "\<forall>x\<in>set (timers st). T < fst x \<Longrightarrow> run_until T st = st\<lparr>now := max (now st) T\<rparr>"
proof (cases "earliest (timers st)")
  case None
  then show ?thesis
    by (subst run_until.simps) simp
next
  case (Some x)
  assume all: "\<forall>x\<in>set (timers st). T < fst x"
  from Some have "x \<in> set (timers st)" by (rule earliest_mem)
  with all have "\<not> fst x \<le> T" by fastforce
  with Some show ?thesis
    by (subst run_until.simps) simp
qed

lemma run_until_fire:
  "earliest (timers st) = Some x \<Longrightarrow> fst x \<le> T \<Longrightarrow> run_until T st = run_until T (fireTimer x st)"
  by (subst run_until.simps) simp



lemma remove1_snoc_notin: "z \<notin> set xs \<Longrightarrow> remove1 z (xs @ [z]) = xs"
  by (induction xs) auto

lemma remove1_snoc_in: "x \<in> set xs \<Longrightarrow> remove1 x (xs @ [z]) = remove1 x xs @ [z]"
  by (induction xs) auto

lemma run_until_send:
  "timers st = ts @ [(T, SendTimer)] \<Longrightarrow> \<forall>x\<in>set ts. snd x = ToastTimer \<Longrightarrow> now st \<le> T \<Longrightarrow>
   run_until T st =
     st\<lparr>isSubmitting := False, mailSent := True, form := emptyForm,
        timers := filter (\<lambda>x. T < fst x) ts @ [(T + 3000, ToastTimer)],
        now := T\<rparr>"
proof (induction T st arbitrary: ts rule: run_until.induct)
  case (1 T st)
  let ?z = "(T, SendTimer)"
  have zin: "?z \<in> set (timers st)"
    using "1.prems"(1) by simp
  have znot: "?z \<notin> set ts"
    using "1.prems"(2) by fastforce
  obtain x where e: "earliest (timers st) = Some x"
    using zin by (cases "earliest (timers st)") (auto simp: earliest_None)
  have le: "fst x \<le> T"
    using earliest_least [OF e zin] by simp
  have unf: "run_until T st = run_until T (fireTimer x st)"
    using e le by (rule run_until_fire)
  show ?case
  proof (cases "x = ?z")
    case True
    have late: "\<forall>y\<in>set ts. T < fst y"
    proof
      fix y assume y: "y \<in> set ts"
      show "T < fst y"
      proof (cases "earliest ts")
        case None
        with y show ?thesis by (simp add: earliest_None)
      next
        case (Some w)
        with e True "1.prems"(1) have "\<not> fst w \<le> T"
          using znot earliest_mem [OF Some] by (auto simp: earliest_snoc split: if_splits)
        with earliest_least [OF Some y] show ?thesis by simp
      qed
    qed
    then have f: "filter (\<lambda>x. T < fst x) ts = ts"
      by simp
    have t': "timers (fireTimer x st) = ts @ [(T + 3000, ToastTimer)]"
      using True "1.prems"(1,3) znot
      by (simp add: fireTimer_def setTimeout_def remove1_snoc_notin max_def)
    have "\<forall>y\<in>set (timers (fireTimer x st)). T < fst y"
      using late by (simp add: t')
    then have "run_until T (fireTimer x st) = fireTimer x st\<lparr>now := max (now (fireTimer x st)) T\<rparr>"
      by (rule run_until_idle)
    then show ?thesis
      unfolding unf f using True "1.prems"(1,3) znot
      by (simp add: fireTimer_def setTimeout_def remove1_snoc_notin max_def)
  next
    case False
    with earliest_mem [OF e] "1.prems"(1) have xin: "x \<in> set ts"
      by auto
    with "1.prems"(2) have tx: "snd x = ToastTimer"
      by blast
    have t': "timers (fireTimer x st) = remove1 x ts @ [?z]"
      using xin tx "1.prems"(1) by (simp add: fireTimer_def remove1_snoc_in)
    have toasts': "\<forall>y\<in>set (remove1 x ts). snd y = ToastTimer"
      using "1.prems"(2) by (auto dest: notin_set_remove1)
    have now': "now (fireTimer x st) \<le> T"
      using tx le "1.prems"(3) by (simp add: fireTimer_def)
    note "1.IH" [OF e le t' toasts' now']
    then show ?thesis
      unfolding unf using tx le by (simp add: fireTimer_def filter_remove1_out)
  qed
qed


lemma sends_remove1_Send:
  "x \<in> set xs \<Longrightarrow> snd x = SendTimer \<Longrightarrow>
   Suc (length (filter (\<lambda>x. snd x = SendTimer) (remove1 x xs))) = length (filter (\<lambda>x. snd x = SendTimer) xs)"
  by (induction xs) auto

lemma sends_fireTimer:
  assumes "x \<in> set (timers st)" and "sends st = (if isSubmitting st then 1 else 0)"
  shows "sends (fireTimer x st) = (if isSubmitting (fireTimer x st) then 1 else 0)"
proof (cases "snd x")
  case SendTimer
  with assms sends_remove1_Send [of x "timers st"] show ?thesis
    by (auto simp: sends_def fireTimer_def setTimeout_def split: if_splits)
next
  case ToastTimer
  with assms show ?thesis
    by (simp add: sends_def fireTimer_def filter_remove1_out)
qed

lemma sends_run_until:
  "sends st = (if isSubmitting st then 1 else 0) \<Longrightarrow>
   sends (run_until T st) = (if isSubmitting (run_until T st) then 1 else 0)"
proof (induction T st rule: run_until.induct)
  case (1 T st)
  show ?case
  proof (cases "earliest (timers st)")
    case None
    with "1.prems" show ?thesis
      by (subst (1 2) run_until.simps) (simp add: sends_def)
  next
    case (Some x)
    show ?thesis
    proof (cases "fst x \<le> T")
      case True
      from "1.IH" [OF Some True sends_fireTimer [OF earliest_mem [OF Some] "1.prems"]]
      show ?thesis
        unfolding run_until_fire [OF Some True] .
    next
      case False
      with Some "1.prems" show ?thesis
        by (subst (1 2) run_until.simps) (simp add: sends_def)
    qed
  qed
qed

lemma sends_handleSubmit:
  "sends st = 0 \<Longrightarrow> \<not> isSubmitting st \<Longrightarrow>
   sends (handleSubmit st) = (if isSubmitting (handleSubmit st) then 1 else 0)"
  by (simp add: handleSubmit_def sends_def setTimeout_def Let_def split: list.splits)

lemma reachable_sends: "reachable st \<Longrightarrow> sends st = (if isSubmitting st then 1 else 0)"
proof (induction rule: reachable.induct)
  case r_init
  show ?case by (simp add: init_def sends_def)
next
  case (r_change st name "value")
  then show ?case by (auto simp: handleChange_def sends_def Let_def split: if_splits)
next
  case (r_blur st name "value")
  then show ?case by (auto simp: handleBlur_def sends_def Let_def split: if_splits)
next
  case (r_submit st)
  then show ?case
    using sends_handleSubmit [of st] by (simp add: submitButton_def)
next
  case (r_key st key)
  then show ?case by (auto simp: keydown_def onKey_def sends_def split: if_splits)
next
  case (r_time st T)
  then show ?case by (simp add: sends_run_until)
next
  case (r_unmount st)
  then show ?case by (auto simp: cleanup_def sends_def split: if_splits)
qed


section \<open>The submission cycle\<close>













section \<open>The scenario and the teardown\<close>

lemma fillIn_frame:
  "isSubmitting (fillIn st) = isSubmitting st" "mailSent (fillIn st) = mailSent st"
  "timers (fillIn st) = timers st" "now (fillIn st) = now st" "mounted (fillIn st) = mounted st"
  by (simp_all add: fillIn_def handleChange_def Let_def)


lemma validateAll_fillIn: "validateAll (form (fillIn st)) = []"
proof -
  have "validateField (js ''name'') (js ''Sam'') = []"
    unfolding validateField_name by (simp add: eval_defs)
  moreover have "validateField (js ''email'') (js ''sam@example.com'') = []"
    unfolding validateField_email by (simp add: eval_defs)
  moreover have "validateField (js ''message'') (js ''Hello there, how are you?'') = []"
    unfolding validateField_message by (simp add: eval_defs)
  ultimately show ?thesis
    unfolding validateAll_eq fieldOrder_def fieldError_def list.map fillIn_def
    by (simp add: form_handleChange field_names_distinct)
qed

lemma mounted_handleChange: "mounted (handleChange f v st) = mounted st"
  by (simp add: handleChange_def Let_def)

lemma reachable_fillIn: "reachable st \<Longrightarrow> mounted st \<Longrightarrow> reachable (fillIn st)"
  unfolding fillIn_def by (intro r_change) (simp_all add: mounted_handleChange)

lemma fireTimer_cleanup: "fireTimer x (cleanup st) = cleanup (fireTimer x st)"
  by (cases "snd x") (simp_all add: fireTimer_def cleanup_def setTimeout_def)

lemma run_until_cleanup: "run_until T (cleanup st) = cleanup (run_until T st)"
proof (induction T st rule: run_until.induct)
  case (1 T st)
  have t: "timers (cleanup st) = timers st"
    by (simp add: cleanup_def)
  show ?case
  proof (cases "earliest (timers st)")
    case None
    then show ?thesis
      by (subst (1 2) run_until.simps) (simp add: t, simp add: cleanup_def)
  next
    case (Some x)
    show ?thesis
    proof (cases "fst x \<le> T")
      case True
      have "run_until T (cleanup st) = run_until T (fireTimer x (cleanup st))"
        using Some True by (intro run_until_fire) (simp_all add: t)
      also have "\<dots> = cleanup (run_until T (fireTimer x st))"
        using "1.IH" [OF Some True] by (simp add: fireTimer_cleanup)
      finally show ?thesis
        by (simp add: run_until_fire [OF Some True])
    next
      case False
      with Some show ?thesis
        by (subst (1 2) run_until.simps) (simp add: t, simp add: cleanup_def)
    qed
  qed
qed

lemma mounted_fireTimer: "mounted (fireTimer x st) = mounted st"
  by (cases "snd x") (simp_all add: fireTimer_def setTimeout_def)

lemma mounted_run_until: "mounted (run_until T st) = mounted st"
proof (induction T st rule: run_until.induct)
  case (1 T st)
  show ?case
  proof (cases "earliest (timers st)")
    case None
    then show ?thesis
      by (subst run_until.simps) simp
  next
    case (Some x)
    show ?thesis
    proof (cases "fst x \<le> T")
      case True
      with "1.IH" [OF Some True] show ?thesis
        by (simp add: run_until_fire [OF Some True] mounted_fireTimer)
    next
      case False
      with Some show ?thesis
        by (subst run_until.simps) simp
    qed
  qed
qed

lemma no_step_cancels:
  "\<forall>t cb. c \<noteq> Timer t cb \<Longrightarrow> \<exists>ys. timers (step c st) = timers st @ ys"
  by (cases c)
    (auto simp: handleChange_def handleBlur_def submitButton_def handleSubmit_def setTimeout_def
      keydown_def onKey_def cleanup_def Let_def split: list.splits)

text \<open>The scenario: the form is filled in and submitted.\<close>

lemma submitted:
  "submitButton (fillIn init) =
     fillIn init\<lparr>errors := [], isSubmitting := True, timers := [(700, SendTimer)]\<rparr>"
proof -
  have "\<not> isSubmitting (fillIn init)" "timers (fillIn init) = []" "now (fillIn init) = 0"
    by (simp_all add: fillIn_frame init_def)
  then show ?thesis
    by (simp add: submitButton_def handleSubmit_valid [OF validateAll_fillIn])
qed

lemma sent:
  "elapse 700 (submitButton (fillIn init)) =
     fillIn init\<lparr>errors := [], isSubmitting := False, mailSent := True, form := emptyForm,
                  timers := [(3700, ToastTimer)], now := 700\<rparr>"
proof -
  let ?s = "submitButton (fillIn init)"
  have i: "now (fillIn init) = 0"
    by (simp add: fillIn_frame init_def)
  have n: "now ?s = 0" and t: "timers ?s = [] @ [(700, SendTimer)]"
    by (simp_all add: submitted i)
  have "run_until 700 ?s =
      ?s\<lparr>isSubmitting := False, mailSent := True, form := emptyForm,
          timers := filter (\<lambda>x. 700 < fst x) [] @ [(700 + 3000, ToastTimer)], now := 700\<rparr>"
    by (rule run_until_send [OF t]) (simp_all add: n)
  then show ?thesis
    by (simp add: elapse_def n) (simp add: submitted)
qed


section \<open>The claims about submission and time\<close>





text \<open>
  C4, as the code has it. In every reachable state at most one send is in flight, and
  one is in flight exactly in \<open>Sending\<close>. The guard is the disabled submit button: in
  \<open>Sending\<close> it does nothing, in every other state (\<open>Idle\<close> and also \<open>Succeeded\<close>) it runs
  \<open>handleSubmit\<close>, and the state it leaves has at most one send in flight.
  \<open>handleSubmit\<close> itself has no guard: on valid values it always schedules one more send.
\<close>

theorem one_send_in_flight:
  assumes "reachable st"
  shows "sends st \<le> 1 \<and>
         (sends st = 1 \<longleftrightarrow> submission st = Sending) \<and>
         (submission st = Sending \<longrightarrow> submitButton st = st) \<and>
         (submission st \<noteq> Sending \<longrightarrow> submitButton st = handleSubmit st) \<and>
         sends (submitButton st) \<le> 1 \<and>
         (validateAll (form st) = [] \<longrightarrow> sends (handleSubmit st) = sends st + 1)"
proof -
  note inv = reachable_sends [OF assms]
  have s: "submission st = Sending \<longleftrightarrow> isSubmitting st"
    by (simp add: submission_def)
  have "sends (submitButton st) \<le> 1"
    using inv sends_handleSubmit [of st] by (simp add: submitButton_def)
  moreover have "validateAll (form st) = [] \<longrightarrow> sends (handleSubmit st) = sends st + 1"
    by (simp add: handleSubmit_valid sends_def)
  ultimately show ?thesis
    using inv by (simp add: s submitButton_def)
qed

text \<open>After a submission the button is inert.\<close>

theorem one_send_in_flight_witness:
  "sends (submitButton (fillIn init)) = 1 \<and>
   submission (submitButton (fillIn init)) = Sending \<and>
   submitButton (submitButton (fillIn init)) = submitButton (fillIn init)"
proof -
  have m: "mounted (fillIn init)"
    by (simp add: fillIn_frame init_def)
  have r: "reachable (submitButton (fillIn init))"
    by (intro r_submit reachable_fillIn r_init m) (simp add: init_def)
  have s: "submission (submitButton (fillIn init)) = Sending"
    by (simp add: submitted submission_def)
  from one_send_in_flight [OF r] s show ?thesis
    by simp
qed

text \<open>
  C4 as stated fails for \<open>Succeeded\<close>: after a send has completed, while the toast is
  still showing, the form can be filled in again and submitted, and a send starts.
\<close>

theorem submit_while_Succeeded:
  "reachable (fillIn (elapse 700 (submitButton (fillIn init)))) \<and>
   submission (fillIn (elapse 700 (submitButton (fillIn init)))) = Succeeded \<and>
   submission (submitButton (fillIn (elapse 700 (submitButton (fillIn init))))) = Sending \<and>
   sends (submitButton (fillIn (elapse 700 (submitButton (fillIn init))))) = 1"
proof -
  let ?s = "elapse 700 (submitButton (fillIn init))"
  have mi: "mounted init"
    by (simp add: init_def)
  have m: "mounted (fillIn init)"
    by (simp add: fillIn_frame mi)
  have m1: "mounted (submitButton (fillIn init))"
    by (simp add: submitted m)
  have r: "reachable (fillIn ?s)"
    unfolding elapse_def
    by (intro reachable_fillIn r_time r_submit r_init m) (simp_all add: mounted_run_until m1 mi)
  have f: "\<not> isSubmitting (fillIn ?s)" "mailSent (fillIn ?s)" "sends (fillIn ?s) = 0"
    by (simp_all add: fillIn_frame sends_def sent)
  have h: "submitButton (fillIn ?s) = handleSubmit (fillIn ?s)"
    using f by (simp add: submitButton_def)
  have v: "handleSubmit (fillIn ?s) =
      fillIn ?s\<lparr>errors := [], isSubmitting := True,
                timers := timers (fillIn ?s) @ [(now (fillIn ?s) + 700, SendTimer)]\<rparr>"
    by (rule handleSubmit_valid [OF validateAll_fillIn])
  have "submission (fillIn ?s) = Succeeded"
    using f by (simp add: submission_def)
  moreover have "submission (submitButton (fillIn ?s)) = Sending"
    unfolding h by (subst v) (simp add: submission_def)
  moreover have "sends (submitButton (fillIn ?s)) = 1"
    unfolding h using f(3) by (subst v) (simp add: sends_def)
  ultimately show ?thesis
    using r by blast
qed

text \<open>
  C9, as the code has it. The source never calls \<open>clearTimeout\<close>. The cleanup of the
  effect (the teardown) leaves every scheduled timer pending, and time then passes as it
  would have without the teardown: the same callbacks run at the same times and issue the
  same updates (the state record holds the values the setters were last called with).
  No handler, listener or cleanup removes a pending timer: a timer only leaves by running.
\<close>

theorem teardown_keeps_timers:
  "timers (cleanup st) = timers st \<and>
   (\<forall>T. run_until T (cleanup st) = cleanup (run_until T st)) \<and>
   (\<forall>d. mailSent (elapse d (cleanup st)) = mailSent (elapse d st) \<and>
        isSubmitting (elapse d (cleanup st)) = isSubmitting (elapse d st) \<and>
        form (elapse d (cleanup st)) = form (elapse d st) \<and>
        timers (elapse d (cleanup st)) = timers (elapse d st)) \<and>
   (\<forall>c. (\<forall>t cb. c \<noteq> Timer t cb) \<longrightarrow> (\<exists>ys. timers (step c st) = timers st @ ys))"
proof -
  have n: "now (cleanup st) = now st"
    by (simp add: cleanup_def)
  have "elapse d (cleanup st) = cleanup (elapse d st)" for d
    by (simp add: elapse_def n run_until_cleanup)
  then show ?thesis
    using no_step_cancels by (simp add: run_until_cleanup) (simp add: cleanup_def)
qed

text \<open>A submission, then the teardown: the send timer is pending and runs.\<close>

theorem teardown_keeps_timers_witness:
  "timers (cleanup (submitButton (fillIn init))) = [(700, SendTimer)] \<and>
   mailSent (elapse 700 (cleanup (submitButton (fillIn init)))) \<and>
   (\<exists>ys. timers (step Unmount (submitButton (fillIn init))) = [(700, SendTimer)] @ ys)"
proof -
  let ?s = "submitButton (fillIn init)"
  note a = teardown_keeps_timers [of ?s]
  have t: "timers ?s = [(700, SendTimer)]"
    by (simp add: submitted)
  have m: "mailSent (elapse 700 ?s)"
    by (simp add: sent)
  from a have 1: "timers (cleanup ?s) = timers ?s"
    by blast
  from a have 2: "mailSent (elapse 700 (cleanup ?s)) = mailSent (elapse 700 ?s)"
    by blast
  have "\<forall>t cb. Unmount \<noteq> Timer t cb"
    by simp
  with a have 3: "\<exists>ys. timers (step Unmount ?s) = timers ?s @ ys"
    by blast
  from 1 2 3 show ?thesis
    unfolding t using m by blast
qed

text \<open>
  C9 as stated fails: after a submission and the teardown the send timer is still
  scheduled; 700 ms later its callback has run, has set \<open>mailSent\<close> and reset the form,
  and has scheduled the toast timer.
\<close>

theorem timers_survive_teardown:
  "\<not> mounted (cleanup (submitButton (fillIn init))) \<and>
   timers (cleanup (submitButton (fillIn init))) = [(700, SendTimer)] \<and>
   \<not> mailSent (cleanup (submitButton (fillIn init))) \<and>
   mailSent (elapse 700 (cleanup (submitButton (fillIn init)))) \<and>
   form (elapse 700 (cleanup (submitButton (fillIn init)))) = emptyForm \<and>
   timers (elapse 700 (cleanup (submitButton (fillIn init)))) = [(3700, ToastTimer)]"
proof -
  let ?s = "submitButton (fillIn init)"
  have n: "now (cleanup ?s) = now ?s"
    by (simp add: cleanup_def)
  have e: "elapse 700 (cleanup ?s) = cleanup (elapse 700 ?s)"
    by (simp add: elapse_def n run_until_cleanup)
  have i: "\<not> mailSent (fillIn init)"
    by (simp add: fillIn_frame init_def)
  show ?thesis
    unfolding e by (simp add: cleanup_def sent) (simp add: submitted i)
qed


end
